theory Spec2Isabelle
  imports Main "HOL-Library.Word"
begin

section \<open>Data model\<close>

text \<open>
  The buffer pool manager of \<^verbatim>\<open>src/buffer/buffer_pool_manager.cpp\<close>. A \<^verbatim>\<open>Page *\<close> is a
  pointer into the array \<^verbatim>\<open>pages_\<close>; such a frame handle is modelled by the index of the
  frame, and the array by a store from handles to page objects, so that every handle
  designates a page object. \<^verbatim>\<open>page_id_t\<close> and \<^verbatim>\<open>pin_count_\<close> are C++ signed integers;
  they are modelled by \<open>int\<close>: the only arithmetic on them is \<^verbatim>\<open>pin_count_++\<close> and
  \<^verbatim>\<open>pin_count_--\<close> (the latter only when the count is positive), and overflow of a signed
  increment is undefined behaviour in C++, which the model does not represent. Every
  public operation holds the pool's latch from its first statement to its return, so each
  is modelled as one atomic transformation of the pool state.
\<close>

type_synonym page_id_t = int
type_synonym byte = "8 word"
type_synonym frame = nat

text \<open>
  Modelled from the spec: the reserved INVALID sentinel of page ids. Its declaration
  (\<^verbatim>\<open>common/config.h\<close>) is not part of the sources; the general results below do not
  depend on its value, the example states only on its being negative.
\<close>

definition INVALID_PAGE_ID :: page_id_t where
  "INVALID_PAGE_ID = - 1"

text \<open>
  Modelled from the spec: the page frame (class \<^verbatim>\<open>Page\<close>, \<^verbatim>\<open>page/page.h\<close>, is not part of
  the sources): a fixed-size byte buffer, the logical page id, the pin count and the dirty
  flag. A freshly constructed frame is unassigned, unpinned, clean and zeroed;
  \<^verbatim>\<open>ResetMemory\<close> zeroes the buffer and nothing else.
\<close>

record page =
  data :: "byte list"
  page_id :: page_id_t
  pin_count :: int
  is_dirty :: bool

definition fresh_page :: "nat \<Rightarrow> page" where
  "fresh_page page_size =
     \<lparr>data = replicate page_size 0, page_id = INVALID_PAGE_ID, pin_count = 0, is_dirty = False\<rparr>"

definition ResetMemory :: "page \<Rightarrow> page" where
  "ResetMemory p = p\<lparr>data := replicate (length (data p)) 0\<rparr>"

subsection \<open>Page table\<close>

text \<open>
  Modelled from the spec: the page table (class \<^verbatim>\<open>ExtendibleHash\<close> is not part of the
  sources) is an associative index with unique keys, offering \<open>Find\<close>, \<open>Insert\<close> and
  \<open>Remove\<close>.
\<close>

type_synonym hash_table = "page_id_t \<rightharpoonup> frame"

definition hash_Find :: "hash_table \<Rightarrow> page_id_t \<Rightarrow> frame option" where
  "hash_Find pt k = pt k"

definition hash_Insert :: "page_id_t \<Rightarrow> frame \<Rightarrow> hash_table \<Rightarrow> hash_table" where
  "hash_Insert k v pt = pt(k \<mapsto> v)"

definition hash_Remove :: "page_id_t \<Rightarrow> hash_table \<Rightarrow> hash_table" where
  "hash_Remove k pt = pt(k := None)"

subsection \<open>Replacer\<close>

text \<open>
  Modelled from the spec: the LRU replacer (\<^verbatim>\<open>lru_replacer.h\<close> only declares it; the
  member functions are not part of the sources). The tracked handles are kept in
  eviction order, least recently inserted first. \<open>Insert\<close> puts a handle at the
  most-recently-used end and is a no-op on a tracked handle; \<open>Victim\<close> removes and
  returns the least recently inserted handle, if any; \<open>Erase\<close> removes a handle from
  tracking and is a no-op on an untracked one; \<open>Size\<close> counts the tracked handles.
\<close>

type_synonym lru = "frame list"

definition lru_Insert :: "frame \<Rightarrow> lru \<Rightarrow> lru" where
  "lru_Insert v r = (if v \<in> set r then r else r @ [v])"

definition lru_Victim :: "lru \<Rightarrow> frame option \<times> lru" where
  "lru_Victim r = (case r of [] \<Rightarrow> (None, []) | v # rest \<Rightarrow> (Some v, rest))"

definition lru_Erase :: "frame \<Rightarrow> lru \<Rightarrow> lru" where
  "lru_Erase v r = removeAll v r"

definition lru_Size :: "lru \<Rightarrow> nat" where
  "lru_Size r = length r"

subsection \<open>Disk collaborator\<close>

text \<open>
  Modelled from the spec: the disk collaborator (class \<^verbatim>\<open>DiskManager\<close> is not part of the
  sources). It keeps the persisted contents of every logical page and hands out fresh
  logical ids from a counter. Every request made to it is recorded, in order, in
  \<open>calls\<close>, so that the requests an operation makes can be read off the state.
\<close>

datatype disk_call =
    WritePageCall page_id_t "byte list"
  | ReadPageCall page_id_t
  | AllocatePageCall
  | DeallocatePageCall page_id_t

record disk =
  stored :: "page_id_t \<Rightarrow> byte list"
  next_page_id :: page_id_t
  calls :: "disk_call list"

definition WritePage :: "page_id_t \<Rightarrow> byte list \<Rightarrow> disk \<Rightarrow> disk" where
  "WritePage k buf d = d\<lparr>stored := (stored d)(k := buf), calls := calls d @ [WritePageCall k buf]\<rparr>"

definition ReadPage :: "page_id_t \<Rightarrow> disk \<Rightarrow> byte list \<times> disk" where
  "ReadPage k d = (stored d k, d\<lparr>calls := calls d @ [ReadPageCall k]\<rparr>)"

definition AllocatePage :: "disk \<Rightarrow> page_id_t \<times> disk" where
  "AllocatePage d =
     (next_page_id d, d\<lparr>next_page_id := next_page_id d + 1, calls := calls d @ [AllocatePageCall]\<rparr>)"

definition DeallocatePage :: "page_id_t \<Rightarrow> disk \<Rightarrow> disk" where
  "DeallocatePage k d = d\<lparr>calls := calls d @ [DeallocatePageCall k]\<rparr>"

subsection \<open>The pool\<close>

record pool =
  pages :: "frame \<Rightarrow> page"
  page_table :: hash_table
  replacer :: lru
  free_list :: "frame list"
  disk_manager :: disk

text \<open>
  The constructor: \<open>pool_size\<close> fresh frames, all of them on the free list in index
  order, an empty page table and an empty replacer.
\<close>

definition BufferPoolManager :: "nat \<Rightarrow> nat \<Rightarrow> disk \<Rightarrow> pool" where
  "BufferPoolManager page_size pool_size d =
     \<lparr>pages = (\<lambda>_. fresh_page page_size), page_table = Map.empty, replacer = [],
      free_list = [0..<pool_size], disk_manager = d\<rparr>"

text \<open>
  The model is of a build in which assertions are checked. A failed \<^verbatim>\<open>assert\<close> aborts
  the process; so does the use of a null handle. Both are results of the operation that
  runs into them, and no state follows them.
\<close>

datatype error =
    AssertFreePageIdInvalid
  | AssertPinCountZero
  | NullHandle

section \<open>Operations\<close>

definition GetVictimPage :: "pool \<Rightarrow> error + (frame option \<times> pool)" where
  "GetVictimPage s =
     (case free_list s of
        [] \<Rightarrow>
          (if lru_Size (replacer s) = 0 then Inr (None, s)
           else
             (case lru_Victim (replacer s) of
                (None, r) \<Rightarrow> Inl NullHandle
              | (Some target, r) \<Rightarrow>
                  if pin_count (pages s target) = 0
                  then Inr (Some target, s\<lparr>replacer := r\<rparr>)
                  else Inl AssertPinCountZero))
      | target # rest \<Rightarrow>
          (if page_id (pages s target) \<noteq> INVALID_PAGE_ID then Inl AssertFreePageIdInvalid
           else if pin_count (pages s target) \<noteq> 0 then Inl AssertPinCountZero
           else Inr (Some target, s\<lparr>free_list := rest\<rparr>)))"

definition FetchPage :: "page_id_t \<Rightarrow> pool \<Rightarrow> error + (frame option \<times> pool)" where
  "FetchPage pid s =
     (case hash_Find (page_table s) pid of
        Some target \<Rightarrow>
          Inr (Some target,
               s\<lparr>pages := (pages s)(target :=
                    (pages s target)\<lparr>pin_count := pin_count (pages s target) + 1\<rparr>),
                 replacer := lru_Erase target (replacer s)\<rparr>)
      | None \<Rightarrow>
          (case GetVictimPage s of
             Inl e \<Rightarrow> Inl e
           | Inr (None, s1) \<Rightarrow> Inr (None, s1)
           | Inr (Some target, s1) \<Rightarrow>
               (let p = pages s1 target;
                    d1 = (if is_dirty p then WritePage (page_id p) (data p) (disk_manager s1)
                          else disk_manager s1);
                    pt = hash_Insert pid target (hash_Remove (page_id p) (page_table s1));
                    (buf, d2) = ReadPage pid d1
                in Inr (Some target,
                        s1\<lparr>pages := (pages s1)(target :=
                             p\<lparr>data := buf, pin_count := 1, is_dirty := False, page_id := pid\<rparr>),
                           page_table := pt, disk_manager := d2\<rparr>))))"

definition UnpinPage :: "page_id_t \<Rightarrow> bool \<Rightarrow> pool \<Rightarrow> bool \<times> pool" where
  "UnpinPage pid dirty s =
     (case hash_Find (page_table s) pid of
        None \<Rightarrow> (False, s)
      | Some target \<Rightarrow>
          (let s1 = s\<lparr>pages := (pages s)(target := (pages s target)\<lparr>is_dirty := dirty\<rparr>)\<rparr>
           in if pin_count (pages s1 target) \<le> 0 then (False, s1)
              else
                (let s2 = s1\<lparr>pages := (pages s1)(target :=
                            (pages s1 target)\<lparr>pin_count := pin_count (pages s1 target) - 1\<rparr>)\<rparr>
                 in if pin_count (pages s2 target) = 0
                    then (True, s2\<lparr>replacer := lru_Insert target (replacer s2)\<rparr>)
                    else (True, s2))))"

definition FlushPage :: "page_id_t \<Rightarrow> pool \<Rightarrow> bool \<times> pool" where
  "FlushPage pid s =
     (case hash_Find (page_table s) pid of
        None \<Rightarrow> (False, s)
      | Some target \<Rightarrow>
          (if page_id (pages s target) = INVALID_PAGE_ID then (False, s)
           else if is_dirty (pages s target)
           then (True,
                 s\<lparr>disk_manager := WritePage pid (data (pages s target)) (disk_manager s),
                   pages := (pages s)(target := (pages s target)\<lparr>is_dirty := False\<rparr>)\<rparr>)
           else (True, s)))"

definition DeletePage :: "page_id_t \<Rightarrow> pool \<Rightarrow> bool \<times> pool" where
  "DeletePage pid s =
     (case hash_Find (page_table s) pid of
        Some target \<Rightarrow>
          (if pin_count (pages s target) > 0 then (False, s)
           else (True,
                 s\<lparr>replacer := lru_Erase target (replacer s),
                   page_table := hash_Remove pid (page_table s),
                   pages := (pages s)(target := ResetMemory ((pages s target)\<lparr>is_dirty := False\<rparr>)),
                   free_list := free_list s @ [target],
                   disk_manager := DeallocatePage pid (disk_manager s)\<rparr>))
      | None \<Rightarrow> (True, s\<lparr>disk_manager := DeallocatePage pid (disk_manager s)\<rparr>))"

text \<open>
  \<^verbatim>\<open>NewPage\<close> returns the handle and, through its reference parameter, the new page id;
  on failure the parameter is left as it was, so the result is nothing at all.
\<close>

definition NewPage :: "pool \<Rightarrow> error + ((frame \<times> page_id_t) option \<times> pool)" where
  "NewPage s =
     (case GetVictimPage s of
        Inl e \<Rightarrow> Inl e
      | Inr (None, s1) \<Rightarrow> Inr (None, s1)
      | Inr (Some target, s1) \<Rightarrow>
          (let (pid, d1) = AllocatePage (disk_manager s1);
               p = pages s1 target;
               d2 = (if is_dirty p then WritePage (page_id p) (data p) d1 else d1);
               pt = hash_Insert pid target (hash_Remove (page_id p) (page_table s1))
           in Inr (Some (target, pid),
                   s1\<lparr>pages := (pages s1)(target :=
                        (ResetMemory (p\<lparr>page_id := pid\<rparr>))\<lparr>is_dirty := False, pin_count := 1\<rparr>),
                      page_table := pt, disk_manager := d2\<rparr>)))"

section \<open>Call sequences\<close>

datatype op =
    Fetch page_id_t
  | Unpin page_id_t bool
  | Flush page_id_t
  | Delete page_id_t
  | New

fun step :: "op \<Rightarrow> pool \<Rightarrow> error + pool" where
  "step (Fetch pid) s = (case FetchPage pid s of Inl e \<Rightarrow> Inl e | Inr (r, s') \<Rightarrow> Inr s')"
| "step (Unpin pid dirty) s = Inr (snd (UnpinPage pid dirty s))"
| "step (Flush pid) s = Inr (snd (FlushPage pid s))"
| "step (Delete pid) s = Inr (snd (DeletePage pid s))"
| "step New s = (case NewPage s of Inl e \<Rightarrow> Inl e | Inr (r, s') \<Rightarrow> Inr s')"

fun run :: "op list \<Rightarrow> pool \<Rightarrow> error + pool" where
  "run [] s = Inr s"
| "run (c # cs) s = (case step c s of Inl e \<Rightarrow> Inl e | Inr s' \<Rightarrow> run cs s')"

text \<open>
  The states a pool can be in: those a sequence of calls reaches from a freshly
  constructed pool without aborting.
\<close>

inductive reachable :: "pool \<Rightarrow> bool" where
  reachable_init: "reachable (BufferPoolManager page_size pool_size d)"
| reachable_step: "reachable s \<Longrightarrow> step c s = Inr s' \<Longrightarrow> reachable s'"

text \<open>
  A call sequence uses the pool as intended when \<^verbatim>\<open>FetchPage\<close> is never asked for the
  INVALID sentinel and the id the disk collaborator hands to \<^verbatim>\<open>NewPage\<close> is a valid id
  that is not resident at that moment (the collaborator's contract: a fresh unused
  logical id).
\<close>

fun admissible :: "op \<Rightarrow> pool \<Rightarrow> bool" where
  "admissible (Fetch pid) s = (pid \<noteq> INVALID_PAGE_ID)"
| "admissible New s =
     (next_page_id (disk_manager s) \<noteq> INVALID_PAGE_ID \<and>
      page_table s (next_page_id (disk_manager s)) = None)"
| "admissible c s = True"

inductive well_used :: "pool \<Rightarrow> bool" where
  well_used_init: "well_used (BufferPoolManager page_size pool_size d)"
| well_used_step: "well_used s \<Longrightarrow> admissible c s \<Longrightarrow> step c s = Inr s' \<Longrightarrow> well_used s'"

section \<open>Frame states and invariants\<close>

text \<open>
  A frame is Resident-Unpinned when it holds a valid id, the page table maps that id to
  it, and nobody pins it.
\<close>

definition resident_unpinned :: "pool \<Rightarrow> frame \<Rightarrow> bool" where
  "resident_unpinned s f =
     (page_id (pages s f) \<noteq> INVALID_PAGE_ID \<and>
      page_table s (page_id (pages s f)) = Some f \<and>
      pin_count (pages s f) = 0)"

text \<open>
  What every call sequence maintains: a page-table entry leads to a frame that carries
  the entry's key; pin counts are not negative; the free list and the replacer hold no
  handle twice; a frame on the free list is neither in the page table nor in the replacer;
  frames on the free list and in the replacer are unpinned.
\<close>

definition pool_inv :: "pool \<Rightarrow> bool" where
  "pool_inv s =
     ((\<forall>k f. page_table s k = Some f \<longrightarrow> page_id (pages s f) = k) \<and>
      (\<forall>f. 0 \<le> pin_count (pages s f)) \<and>
      distinct (free_list s) \<and>
      distinct (replacer s) \<and>
      (\<forall>f \<in> set (free_list s). (\<forall>k. page_table s k \<noteq> Some f) \<and> f \<notin> set (replacer s)) \<and>
      (\<forall>f \<in> set (free_list s) \<union> set (replacer s). pin_count (pages s f) = 0))"

text \<open>
  What the intended use maintains in addition: the INVALID sentinel is not a key of the
  page table, and the replacer tracks exactly the Resident-Unpinned frames.
\<close>

definition tracking_inv :: "pool \<Rightarrow> bool" where
  "tracking_inv s =
     (page_table s INVALID_PAGE_ID = None \<and>
      (\<forall>f. f \<in> set (replacer s) \<longleftrightarrow> resident_unpinned s f))"

section \<open>Example states\<close>

definition disk0 :: disk where
  "disk0 = \<lparr>stored = (\<lambda>_. []), next_page_id = 0, calls = []\<rparr>"

text \<open>The state a call sequence leaves behind (the starting state if it aborts).\<close>

definition after :: "op list \<Rightarrow> pool \<Rightarrow> pool" where
  "after cs s = (case run cs s of Inl e \<Rightarrow> s | Inr s' \<Rightarrow> s')"

text \<open>A pool of one frame with pages of four bytes, and states reached from it.\<close>

definition ex_fresh :: pool where
  "ex_fresh = BufferPoolManager 4 1 disk0"

definition ex_pinned :: pool where
  "ex_pinned = after [New] ex_fresh"

definition ex_unpinned :: pool where
  "ex_unpinned = after [New, Unpin 0 False] ex_fresh"

definition ex_dirty_pinned :: pool where
  "ex_dirty_pinned = after [New, Fetch 0, Unpin 0 True] ex_fresh"

definition ex_dirty_unpinned :: pool where
  "ex_dirty_unpinned = after [New, Unpin 0 True] ex_fresh"

definition ex_deleted :: pool where
  "ex_deleted = after [New, Unpin 0 False, Delete 0] ex_fresh"

definition ex_invalid :: pool where
  "ex_invalid = after [Fetch INVALID_PAGE_ID, Unpin INVALID_PAGE_ID False] ex_fresh"

text \<open>
  A pool of two frames in which page 0 was fetched and unpinned before the disk
  collaborator allocated the id 0 to a new page.
\<close>

definition ex_collision :: pool where
  "ex_collision = after [Fetch 0, Unpin 0 False, New] (BufferPoolManager 4 2 disk0)"

section \<open>Evaluation of concrete states\<close>

lemmas ev = after_def BufferPoolManager_def disk0_def fresh_page_def ResetMemory_def
  NewPage_def FetchPage_def UnpinPage_def FlushPage_def DeletePage_def GetVictimPage_def
  hash_Find_def hash_Insert_def hash_Remove_def
  lru_Insert_def lru_Victim_def lru_Erase_def lru_Size_def
  WritePage_def ReadPage_def AllocatePage_def DeallocatePage_def
  INVALID_PAGE_ID_def Let_def upt_rec ex_fresh_def

section \<open>Case analysis of the operations\<close>

lemma victim_cases:
  assumes "GetVictimPage s = Inr (Some t, s1)"
  shows "pin_count (pages s t) = 0 \<and>
         ((\<exists>rest. free_list s = t # rest \<and> s1 = s\<lparr>free_list := rest\<rparr> \<and>
                  page_id (pages s t) = INVALID_PAGE_ID) \<or>
          (\<exists>rest. free_list s = [] \<and> replacer s = t # rest \<and> s1 = s\<lparr>replacer := rest\<rparr>))"
  using assms
  by (auto simp: GetVictimPage_def lru_Size_def lru_Victim_def split: list.splits if_splits)

lemma victim_none:
  "GetVictimPage s = Inr (None, s1) \<longleftrightarrow> free_list s = [] \<and> replacer s = [] \<and> s1 = s"
  by (auto simp: GetVictimPage_def lru_Size_def lru_Victim_def split: list.splits if_splits)

lemma FetchPage_hit:
  "page_table s pid = Some t \<Longrightarrow>
   FetchPage pid s =
     Inr (Some t, s\<lparr>pages := (pages s)(t := (pages s t)\<lparr>pin_count := pin_count (pages s t) + 1\<rparr>),
                    replacer := removeAll t (replacer s)\<rparr>)"
  by (simp add: FetchPage_def hash_Find_def lru_Erase_def)

lemma FetchPage_miss_none:
  "page_table s pid = None \<Longrightarrow> GetVictimPage s = Inr (None, s1) \<Longrightarrow>
   FetchPage pid s = Inr (None, s1)"
  by (simp add: FetchPage_def hash_Find_def)

lemma FetchPage_miss_abort:
  "page_table s pid = None \<Longrightarrow> GetVictimPage s = Inl e \<Longrightarrow> FetchPage pid s = Inl e"
  by (simp add: FetchPage_def hash_Find_def)

lemma FetchPage_miss:
  "page_table s pid = None \<Longrightarrow> GetVictimPage s = Inr (Some t, s1) \<Longrightarrow>
   FetchPage pid s =
     Inr (Some t,
          s1\<lparr>pages := (pages s1)(t := (pages s1 t)\<lparr>
                 data := fst (ReadPage pid
                   (if is_dirty (pages s1 t)
                    then WritePage (page_id (pages s1 t)) (data (pages s1 t)) (disk_manager s1)
                    else disk_manager s1)),
                 pin_count := 1, is_dirty := False, page_id := pid\<rparr>),
             page_table := (page_table s1)(page_id (pages s1 t) := None, pid \<mapsto> t),
             disk_manager := snd (ReadPage pid
                   (if is_dirty (pages s1 t)
                    then WritePage (page_id (pages s1 t)) (data (pages s1 t)) (disk_manager s1)
                    else disk_manager s1))\<rparr>)"
  by (simp add: FetchPage_def hash_Find_def Let_def case_prod_beta hash_Insert_def hash_Remove_def)

lemma NewPage_none:
  "GetVictimPage s = Inr (None, s1) \<Longrightarrow> NewPage s = Inr (None, s1)"
  by (simp add: NewPage_def)

lemma NewPage_abort:
  "GetVictimPage s = Inl e \<Longrightarrow> NewPage s = Inl e"
  by (simp add: NewPage_def)

lemma NewPage_some:
  "GetVictimPage s = Inr (Some t, s1) \<Longrightarrow>
   NewPage s =
     Inr (Some (t, next_page_id (disk_manager s1)),
          s1\<lparr>pages := (pages s1)(t := (pages s1 t)\<lparr>
                 page_id := next_page_id (disk_manager s1),
                 data := replicate (length (data (pages s1 t))) 0,
                 is_dirty := False, pin_count := 1\<rparr>),
             page_table := (page_table s1)(page_id (pages s1 t) := None,
                             next_page_id (disk_manager s1) \<mapsto> t),
             disk_manager :=
               (if is_dirty (pages s1 t)
                then WritePage (page_id (pages s1 t)) (data (pages s1 t))
                       (snd (AllocatePage (disk_manager s1)))
                else snd (AllocatePage (disk_manager s1)))\<rparr>)"
  by (simp add: NewPage_def Let_def case_prod_beta AllocatePage_def ResetMemory_def
      hash_Insert_def hash_Remove_def)

lemma UnpinPage_cases:
  "UnpinPage pid dirty s =
     (case page_table s pid of
        None \<Rightarrow> (False, s)
      | Some t \<Rightarrow>
          if pin_count (pages s t) \<le> 0
          then (False, s\<lparr>pages := (pages s)(t := (pages s t)\<lparr>is_dirty := dirty\<rparr>)\<rparr>)
          else if pin_count (pages s t) = 1
          then (True, s\<lparr>pages := (pages s)(t := (pages s t)\<lparr>is_dirty := dirty, pin_count := 0\<rparr>),
                        replacer := lru_Insert t (replacer s)\<rparr>)
          else (True, s\<lparr>pages := (pages s)(t := (pages s t)\<lparr>is_dirty := dirty,
                          pin_count := pin_count (pages s t) - 1\<rparr>)\<rparr>))"
  by (simp add: UnpinPage_def hash_Find_def Let_def split: option.splits)

lemma FlushPage_cases:
  "FlushPage pid s =
     (case page_table s pid of
        None \<Rightarrow> (False, s)
      | Some t \<Rightarrow>
          if page_id (pages s t) = INVALID_PAGE_ID then (False, s)
          else if is_dirty (pages s t)
          then (True, s\<lparr>disk_manager := WritePage pid (data (pages s t)) (disk_manager s),
                        pages := (pages s)(t := (pages s t)\<lparr>is_dirty := False\<rparr>)\<rparr>)
          else (True, s))"
  by (simp add: FlushPage_def hash_Find_def split: option.splits)

lemma DeletePage_cases:
  "DeletePage pid s =
     (case page_table s pid of
        None \<Rightarrow> (True, s\<lparr>disk_manager := DeallocatePage pid (disk_manager s)\<rparr>)
      | Some t \<Rightarrow>
          if 0 < pin_count (pages s t) then (False, s)
          else (True,
                s\<lparr>replacer := removeAll t (replacer s),
                  page_table := (page_table s)(pid := None),
                  pages := (pages s)(t := (pages s t)\<lparr>is_dirty := False,
                             data := replicate (length (data (pages s t))) 0\<rparr>),
                  free_list := free_list s @ [t],
                  disk_manager := DeallocatePage pid (disk_manager s)\<rparr>))"
  by (simp add: DeletePage_def hash_Find_def hash_Remove_def lru_Erase_def ResetMemory_def
      split: option.splits)

section \<open>The pool invariant\<close>

lemma pool_invD:
  assumes "pool_inv s"
  shows "page_table s k = Some f \<Longrightarrow> page_id (pages s f) = k"
    and "0 \<le> pin_count (pages s f)"
    and "distinct (free_list s)"
    and "distinct (replacer s)"
    and "f \<in> set (free_list s) \<Longrightarrow> page_table s k \<noteq> Some f"
    and "f \<in> set (free_list s) \<Longrightarrow> f \<notin> set (replacer s)"
    and "f \<in> set (free_list s) \<Longrightarrow> pin_count (pages s f) = 0"
    and "f \<in> set (replacer s) \<Longrightarrow> pin_count (pages s f) = 0"
  using assms unfolding pool_inv_def by auto

lemma pool_invI:
  assumes "\<And>k f. page_table s k = Some f \<Longrightarrow> page_id (pages s f) = k"
    and "\<And>f. 0 \<le> pin_count (pages s f)"
    and "distinct (free_list s)"
    and "distinct (replacer s)"
    and "\<And>f k. f \<in> set (free_list s) \<Longrightarrow> page_table s k \<noteq> Some f"
    and "\<And>f. f \<in> set (free_list s) \<Longrightarrow> f \<notin> set (replacer s)"
    and "\<And>f. f \<in> set (free_list s) \<Longrightarrow> pin_count (pages s f) = 0"
    and "\<And>f. f \<in> set (replacer s) \<Longrightarrow> pin_count (pages s f) = 0"
  shows "pool_inv s"
  using assms unfolding pool_inv_def by auto

lemma pool_inv_key:
  "pool_inv s \<Longrightarrow> page_table s k = Some f \<Longrightarrow> page_table s k' = Some f \<Longrightarrow> k = k'"
  unfolding pool_inv_def by metis

lemma pool_inv_init: "pool_inv (BufferPoolManager page_size pool_size d)"
  by (simp add: pool_inv_def BufferPoolManager_def fresh_page_def)

lemma install_free:
  assumes inv: "pool_inv s" and fl: "free_list s = t # rest"
    and p: "page_id p = pid" "0 \<le> pin_count p"
  shows "pool_inv (s\<lparr>free_list := rest\<rparr>\<lparr>pages := (pages s)(t := p),
            page_table := (page_table s)(old := None, pid \<mapsto> t), disk_manager := d\<rparr>)"
  using assms unfolding pool_inv_def
  by (auto split: if_splits)

lemma install_lru:
  assumes inv: "pool_inv s" and fl: "free_list s = []" "replacer s = t # rest"
    and p: "page_id p = pid" "0 \<le> pin_count p"
  shows "pool_inv (s\<lparr>replacer := rest\<rparr>\<lparr>pages := (pages s)(t := p),
            page_table := (page_table s)(page_id (pages s t) := None, pid \<mapsto> t),
            disk_manager := d\<rparr>)"
  using assms unfolding pool_inv_def
  by (auto split: if_splits)

lemma install_pool_inv:
  assumes inv: "pool_inv s" and v: "GetVictimPage s = Inr (Some t, s1)"
    and p: "page_id p = pid" "pin_count p = 1"
  shows "pool_inv (s1\<lparr>pages := (pages s1)(t := p),
            page_table := (page_table s1)(page_id (pages s1 t) := None, pid \<mapsto> t),
            disk_manager := d\<rparr>)"
  using victim_cases [OF v]
proof (elim conjE disjE exE)
  fix rest
  assume a: "free_list s = t # rest" "s1 = s\<lparr>free_list := rest\<rparr>"
  from p(2) have "0 \<le> pin_count p" by simp
  from install_free [OF inv a(1) p(1) this, where old = "page_id (pages s t)" and d = d] a(2)
  show ?thesis by simp
next
  fix rest
  assume a: "free_list s = []" "replacer s = t # rest" "s1 = s\<lparr>replacer := rest\<rparr>"
  from p(2) have "0 \<le> pin_count p" by simp
  from install_lru [OF inv a(1,2) p(1) this, where d = d] a(3)
  show ?thesis by simp
qed

lemma FetchPage_pool_inv:
  assumes inv: "pool_inv s" and f: "FetchPage pid s = Inr (r, s')"
  shows "pool_inv s'"
proof (cases "page_table s pid")
  case (Some t)
  have "pool_inv (s\<lparr>pages := (pages s)(t := (pages s t)\<lparr>pin_count := pin_count (pages s t) + 1\<rparr>),
                     replacer := removeAll t (replacer s)\<rparr>)"
    using inv Some unfolding pool_inv_def
    by (auto simp: distinct_removeAll split: if_splits)
  with f FetchPage_hit [OF Some] show ?thesis by simp
next
  case None
  show ?thesis
  proof (cases "GetVictimPage s")
    case (Inl e)
    with f FetchPage_miss_abort [OF None] show ?thesis by simp
  next
    case (Inr a)
    obtain v s1 where a: "a = (v, s1)" by (cases a)
    show ?thesis
    proof (cases v)
      case vNone: None
      with Inr a f FetchPage_miss_none [OF None, of s1] have "s' = s1" by simp
      moreover from Inr a vNone have "s1 = s" by (simp add: victim_none)
      ultimately show ?thesis using inv by simp
    next
      case (Some t)
      with Inr a have v: "GetVictimPage s = Inr (Some t, s1)" by simp
      from FetchPage_miss [OF None v] f have "s' = s1\<lparr>pages := (pages s1)(t := (pages s1 t)\<lparr>
                 data := fst (ReadPage pid
                   (if is_dirty (pages s1 t)
                    then WritePage (page_id (pages s1 t)) (data (pages s1 t)) (disk_manager s1)
                    else disk_manager s1)),
                 pin_count := 1, is_dirty := False, page_id := pid\<rparr>),
             page_table := (page_table s1)(page_id (pages s1 t) := None, pid \<mapsto> t),
             disk_manager := snd (ReadPage pid
                   (if is_dirty (pages s1 t)
                    then WritePage (page_id (pages s1 t)) (data (pages s1 t)) (disk_manager s1)
                    else disk_manager s1))\<rparr>" by simp
      then show ?thesis
        by (simp only:) (rule install_pool_inv [OF inv v], simp_all)
    qed
  qed
qed

lemma NewPage_pool_inv:
  assumes inv: "pool_inv s" and f: "NewPage s = Inr (r, s')"
  shows "pool_inv s'"
proof (cases "GetVictimPage s")
  case (Inl e)
  with f NewPage_abort show ?thesis by simp
next
  case (Inr a)
  obtain v s1 where a: "a = (v, s1)" by (cases a)
  show ?thesis
  proof (cases v)
    case None
    with Inr a f NewPage_none [of s s1] have "s' = s1" by simp
    moreover from Inr a None have "s1 = s" by (simp add: victim_none)
    ultimately show ?thesis using inv by simp
  next
    case (Some t)
    with Inr a have v: "GetVictimPage s = Inr (Some t, s1)" by simp
    from NewPage_some [OF v] f have "s' = s1\<lparr>pages := (pages s1)(t := (pages s1 t)\<lparr>
                 page_id := next_page_id (disk_manager s1),
                 data := replicate (length (data (pages s1 t))) 0,
                 is_dirty := False, pin_count := 1\<rparr>),
             page_table := (page_table s1)(page_id (pages s1 t) := None,
                             next_page_id (disk_manager s1) \<mapsto> t),
             disk_manager :=
               (if is_dirty (pages s1 t)
                then WritePage (page_id (pages s1 t)) (data (pages s1 t))
                       (snd (AllocatePage (disk_manager s1)))
                else snd (AllocatePage (disk_manager s1)))\<rparr>" by simp
    then show ?thesis
      by (simp only:) (rule install_pool_inv [OF inv v], simp_all)
  qed
qed

lemma UnpinPage_pool_inv:
  assumes inv: "pool_inv s"
  shows "pool_inv (snd (UnpinPage pid dirty s))"
proof (cases "page_table s pid")
  case None
  with inv show ?thesis by (simp add: UnpinPage_cases)
next
  case (Some t)
  from inv Some have nf: "t \<notin> set (free_list s)"
    unfolding pool_inv_def by blast
  from inv have nr: "0 < pin_count (pages s t) \<Longrightarrow> t \<notin> set (replacer s)"
    unfolding pool_inv_def by force
  from inv Some nf nr show ?thesis
    unfolding pool_inv_def UnpinPage_cases lru_Insert_def
    by (auto split: if_splits)
qed

lemma FlushPage_pool_inv:
  assumes inv: "pool_inv s"
  shows "pool_inv (snd (FlushPage pid s))"
proof (cases "page_table s pid")
  case None
  with inv show ?thesis by (simp add: FlushPage_cases)
next
  case (Some t)
  from inv Some show ?thesis
    unfolding pool_inv_def FlushPage_cases
    by (auto split: if_splits)
qed

lemma DeletePage_pool_inv:
  assumes inv: "pool_inv s"
  shows "pool_inv (snd (DeletePage pid s))"
proof (cases "page_table s pid")
  case None
  with inv show ?thesis
    unfolding pool_inv_def DeletePage_cases by simp
next
  case (Some t)
  show ?thesis
  proof (cases "0 < pin_count (pages s t)")
    case True
    with inv Some show ?thesis by (simp add: DeletePage_cases)
  next
    case False
    with pool_invD(2) [OF inv, of t] have pin: "pin_count (pages s t) = 0" by simp
    have ku: "k = pid" if "page_table s k = Some t" for k
      using pool_inv_key [OF inv that Some] .
    have nf: "t \<notin> set (free_list s)"
      using pool_invD(5) [OF inv, of t pid] Some by blast
    let ?s' = "s\<lparr>replacer := removeAll t (replacer s),
                  page_table := (page_table s)(pid := None),
                  pages := (pages s)(t := (pages s t)\<lparr>is_dirty := False,
                             data := replicate (length (data (pages s t))) 0\<rparr>),
                  free_list := free_list s @ [t],
                  disk_manager := DeallocatePage pid (disk_manager s)\<rparr>"
    have "pool_inv ?s'"
    proof (rule pool_invI)
      fix k f assume "page_table ?s' k = Some f"
      then show "page_id (pages ?s' f) = k"
        using pool_invD(1) [OF inv, of k f] by (auto split: if_splits)
    next
      fix f show "0 \<le> pin_count (pages ?s' f)"
        using pool_invD(2) [OF inv, of f] by auto
    next
      show "distinct (free_list ?s')"
        using pool_invD(3) [OF inv] nf by simp
    next
      show "distinct (replacer ?s')"
        using pool_invD(4) [OF inv] by (simp add: distinct_removeAll)
    next
      fix f k assume "f \<in> set (free_list ?s')"
      then show "page_table ?s' k \<noteq> Some f"
        using pool_invD(5) [OF inv, of f k] ku [of k] by auto
    next
      fix f assume "f \<in> set (free_list ?s')"
      then show "f \<notin> set (replacer ?s')"
        using pool_invD(6) [OF inv, of f] by auto
    next
      fix f assume "f \<in> set (free_list ?s')"
      then show "pin_count (pages ?s' f) = 0"
        using pool_invD(7) [OF inv, of f] pin by auto
    next
      fix f assume "f \<in> set (replacer ?s')"
      then show "pin_count (pages ?s' f) = 0"
        using pool_invD(8) [OF inv, of f] pin by auto
    qed
    with Some False show ?thesis by (simp add: DeletePage_cases)
  qed
qed

lemma step_pool_inv:
  assumes inv: "pool_inv s" and st: "step c s = Inr s'"
  shows "pool_inv s'"
proof (cases c)
  case (Fetch pid)
  with st obtain r where "FetchPage pid s = Inr (r, s')"
    by (auto split: sum.splits)
  then show ?thesis by (rule FetchPage_pool_inv [OF inv])
next
  case (Unpin pid dirty)
  with st UnpinPage_pool_inv [OF inv, of pid dirty] show ?thesis by auto
next
  case (Flush pid)
  with st FlushPage_pool_inv [OF inv, of pid] show ?thesis by auto
next
  case (Delete pid)
  with st DeletePage_pool_inv [OF inv, of pid] show ?thesis by auto
next
  case New
  with st obtain r where "NewPage s = Inr (r, s')"
    by (auto split: sum.splits)
  then show ?thesis by (rule NewPage_pool_inv [OF inv])
qed

lemma reachable_pool_inv: "reachable s \<Longrightarrow> pool_inv s"
  by (induction rule: reachable.induct) (auto intro: pool_inv_init step_pool_inv)

lemma run_reachable:
  "reachable s \<Longrightarrow> run cs s = Inr s' \<Longrightarrow> reachable s'"
proof (induction cs arbitrary: s)
  case Nil
  then show ?case by simp
next
  case (Cons c cs)
  then show ?case
    by (auto split: sum.splits intro: reachable_step)
qed

lemma after_reachable: "reachable s \<Longrightarrow> reachable (after cs s)"
  by (auto simp: after_def split: sum.splits intro: run_reachable)

lemma run_snoc:
  "run (cs @ [c]) s = (case run cs s of Inl e \<Rightarrow> Inl e | Inr s' \<Rightarrow> step c s')"
  by (induction cs arbitrary: s) (auto split: sum.splits)

lemma reachable_iff_run:
  "reachable s \<longleftrightarrow>
     (\<exists>page_size pool_size d cs. run cs (BufferPoolManager page_size pool_size d) = Inr s)"
proof
  assume "reachable s"
  then show "\<exists>page_size pool_size d cs. run cs (BufferPoolManager page_size pool_size d) = Inr s"
  proof (induction rule: reachable.induct)
    case (reachable_init page_size pool_size d)
    have "run [] (BufferPoolManager page_size pool_size d) = Inr (BufferPoolManager page_size pool_size d)"
      by simp
    then show ?case by blast
  next
    case (reachable_step s c s')
    then obtain page_size pool_size d cs
      where "run cs (BufferPoolManager page_size pool_size d) = Inr s" by blast
    with reachable_step(2) have "run (cs @ [c]) (BufferPoolManager page_size pool_size d) = Inr s'"
      by (simp add: run_snoc)
    then show ?case by blast
  qed
next
  assume "\<exists>page_size pool_size d cs. run cs (BufferPoolManager page_size pool_size d) = Inr s"
  then show "reachable s"
    by (auto intro: run_reachable reachable_init)
qed

section \<open>The tracking invariant\<close>

lemma tracking_init: "tracking_inv (BufferPoolManager page_size pool_size d)"
  by (simp add: tracking_inv_def resident_unpinned_def BufferPoolManager_def)

lemma tracking_invD:
  assumes "tracking_inv s"
  shows "page_table s INVALID_PAGE_ID = None"
    and "f \<in> set (replacer s) \<longleftrightarrow>
           page_id (pages s f) \<noteq> INVALID_PAGE_ID \<and>
           page_table s (page_id (pages s f)) = Some f \<and> pin_count (pages s f) = 0"
  using assms unfolding tracking_inv_def resident_unpinned_def by auto

lemma tracking_invI:
  assumes "page_table s INVALID_PAGE_ID = None"
    and "\<And>f. f \<in> set (replacer s) \<longleftrightarrow>
           page_id (pages s f) \<noteq> INVALID_PAGE_ID \<and>
           page_table s (page_id (pages s f)) = Some f \<and> pin_count (pages s f) = 0"
  shows "tracking_inv s"
  using assms unfolding tracking_inv_def resident_unpinned_def by auto

lemma install_free_tracking:
  assumes inv: "pool_inv s" and tr: "tracking_inv s" and fl: "free_list s = t # rest"
    and old: "page_id (pages s t) = INVALID_PAGE_ID"
    and pid: "pid \<noteq> INVALID_PAGE_ID" "page_table s pid = None"
    and p: "page_id p = pid" "pin_count p = 1"
    and s': "replacer s' = replacer s" "pages s' = (pages s)(t := p)"
      "page_table s' = (page_table s)(page_id (pages s t) := None, pid \<mapsto> t)"
  shows "tracking_inv s'"
proof (rule tracking_invI)
  show "page_table s' INVALID_PAGE_ID = None"
    using tracking_invD(1) [OF tr] pid s' by simp
next
  fix f
  have nt: "t \<notin> set (replacer s)"
    using pool_invD(6) [OF inv, of t] fl by simp
  show "f \<in> set (replacer s') \<longleftrightarrow>
        page_id (pages s' f) \<noteq> INVALID_PAGE_ID \<and>
        page_table s' (page_id (pages s' f)) = Some f \<and> pin_count (pages s' f) = 0"
    using tracking_invD(2) [OF tr, of f] nt old pid p s'
    by (cases "f = t") auto
qed

lemma install_lru_tracking:
  assumes inv: "pool_inv s" and tr: "tracking_inv s" and rp: "replacer s = t # rest"
    and pid: "pid \<noteq> INVALID_PAGE_ID" "page_table s pid = None"
    and p: "page_id p = pid" "pin_count p = 1"
    and s': "replacer s' = rest" "pages s' = (pages s)(t := p)"
      "page_table s' = (page_table s)(page_id (pages s t) := None, pid \<mapsto> t)"
  shows "tracking_inv s'"
proof (rule tracking_invI)
  show "page_table s' INVALID_PAGE_ID = None"
    using tracking_invD(1) [OF tr] pid s' by simp
next
  fix f
  have nt: "t \<notin> set rest"
    using pool_invD(4) [OF inv] rp by simp
  have tt: "page_table s (page_id (pages s t)) = Some t"
    using tracking_invD(2) [OF tr, of t] rp by simp
  show "f \<in> set (replacer s') \<longleftrightarrow>
        page_id (pages s' f) \<noteq> INVALID_PAGE_ID \<and>
        page_table s' (page_id (pages s' f)) = Some f \<and> pin_count (pages s' f) = 0"
    using tracking_invD(2) [OF tr, of f] nt tt rp pid p s'
    by (cases "f = t") auto
qed

lemma install_tracking:
  assumes inv: "pool_inv s" and tr: "tracking_inv s"
    and v: "GetVictimPage s = Inr (Some t, s1)"
    and pid: "pid \<noteq> INVALID_PAGE_ID" "page_table s pid = None"
    and p: "page_id p = pid" "pin_count p = 1"
  shows "tracking_inv (s1\<lparr>pages := (pages s1)(t := p),
            page_table := (page_table s1)(page_id (pages s1 t) := None, pid \<mapsto> t),
            disk_manager := d\<rparr>)"
  using victim_cases [OF v]
proof (elim conjE disjE exE)
  fix rest
  assume a: "free_list s = t # rest" "s1 = s\<lparr>free_list := rest\<rparr>"
    "page_id (pages s t) = INVALID_PAGE_ID"
  show ?thesis
    by (rule install_free_tracking [OF inv tr a(1) a(3) pid p]) (simp_all add: a(2))
next
  fix rest
  assume a: "free_list s = []" "replacer s = t # rest" "s1 = s\<lparr>replacer := rest\<rparr>"
  show ?thesis
    by (rule install_lru_tracking [OF inv tr a(2) pid p]) (simp_all add: a(3))
qed

lemma FetchPage_tracking:
  assumes inv: "pool_inv s" and tr: "tracking_inv s"
    and pid: "pid \<noteq> INVALID_PAGE_ID" and f: "FetchPage pid s = Inr (r, s')"
  shows "tracking_inv s'"
proof (cases "page_table s pid")
  case (Some t)
  from f FetchPage_hit [OF Some]
  have s': "s' = s\<lparr>pages := (pages s)(t := (pages s t)\<lparr>pin_count := pin_count (pages s t) + 1\<rparr>),
                    replacer := removeAll t (replacer s)\<rparr>" by simp
  show ?thesis
  proof (rule tracking_invI)
    show "page_table s' INVALID_PAGE_ID = None"
      using tracking_invD(1) [OF tr] s' by simp
  next
    fix f
    show "f \<in> set (replacer s') \<longleftrightarrow>
        page_id (pages s' f) \<noteq> INVALID_PAGE_ID \<and>
        page_table s' (page_id (pages s' f)) = Some f \<and> pin_count (pages s' f) = 0"
      using tracking_invD(2) [OF tr, of f] pool_invD(2) [OF inv, of t] s'
      by (cases "f = t") auto
  qed
next
  case None
  show ?thesis
  proof (cases "GetVictimPage s")
    case (Inl e)
    with f FetchPage_miss_abort [OF None] show ?thesis by simp
  next
    case (Inr a)
    obtain v s1 where a: "a = (v, s1)" by (cases a)
    show ?thesis
    proof (cases v)
      case vNone: None
      with Inr a f FetchPage_miss_none [OF None, of s1] have "s' = s1" by simp
      moreover from Inr a vNone have "s1 = s" by (simp add: victim_none)
      ultimately show ?thesis using tr by simp
    next
      case (Some t)
      with Inr a have v: "GetVictimPage s = Inr (Some t, s1)" by simp
      from FetchPage_miss [OF None v] f show ?thesis
        by (auto intro!: install_tracking [OF inv tr v pid None])
    qed
  qed
qed

lemma NewPage_tracking:
  assumes inv: "pool_inv s" and tr: "tracking_inv s"
    and pid: "next_page_id (disk_manager s) \<noteq> INVALID_PAGE_ID"
      "page_table s (next_page_id (disk_manager s)) = None"
    and f: "NewPage s = Inr (r, s')"
  shows "tracking_inv s'"
proof (cases "GetVictimPage s")
  case (Inl e)
  with f NewPage_abort show ?thesis by simp
next
  case (Inr a)
  obtain v s1 where a: "a = (v, s1)" by (cases a)
  show ?thesis
  proof (cases v)
    case None
    with Inr a f NewPage_none [of s s1] have "s' = s1" by simp
    moreover from Inr a None have "s1 = s" by (simp add: victim_none)
    ultimately show ?thesis using tr by simp
  next
    case (Some t)
    with Inr a have v: "GetVictimPage s = Inr (Some t, s1)" by simp
    from victim_cases [OF v] have d: "disk_manager s1 = disk_manager s" by auto
    from NewPage_some [OF v] f d show ?thesis
      by (auto intro!: install_tracking [OF inv tr v pid])
  qed
qed


lemma UnpinPage_tracking:
  assumes inv: "pool_inv s" and tr: "tracking_inv s"
  shows "tracking_inv (snd (UnpinPage pid dirty s))"
proof (cases "page_table s pid")
  case None
  with tr show ?thesis by (simp add: UnpinPage_cases)
next
  case (Some t)
  have k: "page_id (pages s t) = pid"
    using pool_invD(1) [OF inv Some] .
  have ni: "pid \<noteq> INVALID_PAGE_ID"
    using tracking_invD(1) [OF tr] Some by auto
  show ?thesis
  proof (rule tracking_invI)
    show "page_table (snd (UnpinPage pid dirty s)) INVALID_PAGE_ID = None"
      using tracking_invD(1) [OF tr] Some by (simp add: UnpinPage_cases)
  next
    fix f
    show "f \<in> set (replacer (snd (UnpinPage pid dirty s))) \<longleftrightarrow>
        page_id (pages (snd (UnpinPage pid dirty s)) f) \<noteq> INVALID_PAGE_ID \<and>
        page_table (snd (UnpinPage pid dirty s)) (page_id (pages (snd (UnpinPage pid dirty s)) f)) = Some f \<and>
        pin_count (pages (snd (UnpinPage pid dirty s)) f) = 0"
      using tracking_invD(2) [OF tr, of f] pool_invD(2) [OF inv, of t] Some k ni
      by (cases "f = t") (auto simp: UnpinPage_cases lru_Insert_def)
  qed
qed

lemma FlushPage_tracking:
  assumes tr: "tracking_inv s"
  shows "tracking_inv (snd (FlushPage pid s))"
proof (cases "page_table s pid")
  case None
  with tr show ?thesis by (simp add: FlushPage_cases)
next
  case (Some t)
  show ?thesis
  proof (rule tracking_invI)
    show "page_table (snd (FlushPage pid s)) INVALID_PAGE_ID = None"
      using tracking_invD(1) [OF tr] Some by (simp add: FlushPage_cases)
  next
    fix f
    show "f \<in> set (replacer (snd (FlushPage pid s))) \<longleftrightarrow>
        page_id (pages (snd (FlushPage pid s)) f) \<noteq> INVALID_PAGE_ID \<and>
        page_table (snd (FlushPage pid s)) (page_id (pages (snd (FlushPage pid s)) f)) = Some f \<and>
        pin_count (pages (snd (FlushPage pid s)) f) = 0"
      using tracking_invD(2) [OF tr, of f] Some
      by (cases "f = t") (auto simp: FlushPage_cases)
  qed
qed

lemma DeletePage_tracking:
  assumes inv: "pool_inv s" and tr: "tracking_inv s"
  shows "tracking_inv (snd (DeletePage pid s))"
proof (cases "page_table s pid")
  case None
  with tr show ?thesis
    by (simp add: DeletePage_cases tracking_inv_def resident_unpinned_def)
next
  case (Some t)
  have k: "page_id (pages s t) = pid"
    using pool_invD(1) [OF inv Some] .
  show ?thesis
  proof (rule tracking_invI)
    show "page_table (snd (DeletePage pid s)) INVALID_PAGE_ID = None"
      using tracking_invD(1) [OF tr] Some by (simp add: DeletePage_cases)
  next
    fix f
    show "f \<in> set (replacer (snd (DeletePage pid s))) \<longleftrightarrow>
        page_id (pages (snd (DeletePage pid s)) f) \<noteq> INVALID_PAGE_ID \<and>
        page_table (snd (DeletePage pid s)) (page_id (pages (snd (DeletePage pid s)) f)) = Some f \<and>
        pin_count (pages (snd (DeletePage pid s)) f) = 0"
      using tracking_invD(2) [OF tr, of f] Some k
      by (cases "f = t") (auto simp: DeletePage_cases)
  qed
qed

lemma step_tracking:
  assumes inv: "pool_inv s" and tr: "tracking_inv s"
    and ad: "admissible c s" and st: "step c s = Inr s'"
  shows "tracking_inv s'"
proof (cases c)
  case (Fetch pid)
  with st obtain r where "FetchPage pid s = Inr (r, s')"
    by (auto split: sum.splits)
  with ad Fetch show ?thesis by (auto intro: FetchPage_tracking [OF inv tr])
next
  case (Unpin pid dirty)
  with st UnpinPage_tracking [OF inv tr, of pid dirty] show ?thesis by auto
next
  case (Flush pid)
  with st FlushPage_tracking [OF tr, of pid] show ?thesis by auto
next
  case (Delete pid)
  with st DeletePage_tracking [OF inv tr, of pid] show ?thesis by auto
next
  case New
  with st obtain r where "NewPage s = Inr (r, s')"
    by (auto split: sum.splits)
  with ad New show ?thesis by (auto intro: NewPage_tracking [OF inv tr])
qed

lemma well_used_inv: "well_used s \<Longrightarrow> pool_inv s \<and> tracking_inv s"
proof (induction rule: well_used.induct)
  case (well_used_init page_size pool_size d)
  show ?case by (simp add: pool_inv_init tracking_init)
next
  case (well_used_step s c s')
  then show ?case by (blast intro: step_pool_inv step_tracking)
qed

lemma well_used_reachable: "well_used s \<Longrightarrow> reachable s"
  by (induction rule: well_used.induct) (auto intro: reachable.intros)

section \<open>UnpinPage\<close>







section \<open>DeletePage\<close>

text \<open>
  Claim C3, as amended. \<^verbatim>\<open>DeletePage(id)\<close> returns false exactly when \<open>id\<close> is resident
  with a positive pin count, and then it changes nothing and makes no request to the disk
  collaborator. In every other case (not resident, or resident and unpinned) it returns
  true and requests \<^verbatim>\<open>DeallocatePage(id)\<close>, once, as its only disk request.
\<close>

theorem DeletePage_spec:
  "(fst (DeletePage pid s) = False \<longleftrightarrow>
      (\<exists>t. page_table s pid = Some t \<and> 0 < pin_count (pages s t))) \<and>
   (if \<exists>t. page_table s pid = Some t \<and> 0 < pin_count (pages s t)
    then snd (DeletePage pid s) = s
    else calls (disk_manager (snd (DeletePage pid s))) =
           calls (disk_manager s) @ [DeallocatePageCall pid])"
  by (simp add: DeletePage_def hash_Find_def DeallocatePage_def split: option.splits)

theorem DeletePage_spec_witness:
  "\<not> (\<exists>t. page_table ex_unpinned 0 = Some t \<and> 0 < pin_count (pages ex_unpinned t)) \<and>
   fst (DeletePage 0 ex_unpinned) \<and>
   calls (disk_manager (snd (DeletePage 0 ex_unpinned))) =
     [AllocatePageCall, DeallocatePageCall 0]"
proof -
  have h: "\<not> (\<exists>t. page_table ex_unpinned 0 = Some t \<and> 0 < pin_count (pages ex_unpinned t))"
    by (simp add: ex_unpinned_def ev)
  have c: "calls (disk_manager ex_unpinned) = [AllocatePageCall]"
    by (simp add: ex_unpinned_def ev)
  from DeletePage_spec [of 0 ex_unpinned] h c show ?thesis by simp
qed

text \<open>
  Claim C3 as stated fails: right after \<^verbatim>\<open>NewPage\<close> page 0 is resident and pinned;
  \<^verbatim>\<open>DeletePage(0)\<close> returns false and the disk has seen no request besides the
  allocation.
\<close>

theorem DeletePage_pinned_counterexample:
  "reachable ex_pinned \<and>
   page_table ex_pinned 0 = Some 0 \<and>
   0 < pin_count (pages ex_pinned 0) \<and>
   \<not> fst (DeletePage 0 ex_pinned) \<and>
   calls (disk_manager ex_pinned) = [AllocatePageCall] \<and>
   calls (disk_manager (snd (DeletePage 0 ex_pinned))) = [AllocatePageCall]"
proof -
  have "reachable ex_pinned"
    unfolding ex_pinned_def ex_fresh_def by (rule after_reachable) (rule reachable_init)
  then show ?thesis
    by (simp add: ex_pinned_def ev)
qed

section \<open>FlushPage\<close>

text \<open>
  Claim C8. \<^verbatim>\<open>FlushPage(id)\<close> returns false exactly when \<open>id\<close> is not in the page table or
  the frame found carries the INVALID sentinel, and then nothing changes. When it
  succeeds on a dirty frame, it makes one \<^verbatim>\<open>WritePage\<close> request with \<open>id\<close> and the frame's
  contents and clears the flag; on a clean frame nothing changes. In every case the pin
  count, page id and contents of every frame, the page table, the replacer and the free
  list stay as they were.
\<close>

theorem FlushPage_spec:
  "(fst (FlushPage pid s) = False \<longleftrightarrow>
      (page_table s pid = None \<or>
       (\<exists>t. page_table s pid = Some t \<and> page_id (pages s t) = INVALID_PAGE_ID))) \<and>
   (\<forall>t. fst (FlushPage pid s) \<and> page_table s pid = Some t \<and> is_dirty (pages s t) \<longrightarrow>
      calls (disk_manager (snd (FlushPage pid s))) =
        calls (disk_manager s) @ [WritePageCall pid (data (pages s t))] \<and>
      stored (disk_manager (snd (FlushPage pid s))) pid = data (pages s t) \<and>
      \<not> is_dirty (pages (snd (FlushPage pid s)) t)) \<and>
   (\<forall>t. fst (FlushPage pid s) \<and> page_table s pid = Some t \<and> \<not> is_dirty (pages s t) \<longrightarrow>
      snd (FlushPage pid s) = s) \<and>
   (\<not> fst (FlushPage pid s) \<longrightarrow> snd (FlushPage pid s) = s) \<and>
   (\<forall>f. pin_count (pages (snd (FlushPage pid s)) f) = pin_count (pages s f) \<and>
        page_id (pages (snd (FlushPage pid s)) f) = page_id (pages s f) \<and>
        data (pages (snd (FlushPage pid s)) f) = data (pages s f)) \<and>
   page_table (snd (FlushPage pid s)) = page_table s \<and>
   replacer (snd (FlushPage pid s)) = replacer s \<and>
   free_list (snd (FlushPage pid s)) = free_list s"
  by (simp add: FlushPage_def hash_Find_def WritePage_def split: option.splits)

theorem FlushPage_spec_witness:
  "fst (FlushPage 0 ex_dirty_pinned) \<and> page_table ex_dirty_pinned 0 = Some 0 \<and>
   is_dirty (pages ex_dirty_pinned 0) \<and>
   calls (disk_manager (snd (FlushPage 0 ex_dirty_pinned))) =
     [AllocatePageCall, WritePageCall 0 (replicate 4 0)] \<and>
   \<not> is_dirty (pages (snd (FlushPage 0 ex_dirty_pinned)) 0) \<and>
   pin_count (pages (snd (FlushPage 0 ex_dirty_pinned)) 0) = 1"
proof -
  have h: "fst (FlushPage 0 ex_dirty_pinned) \<and> page_table ex_dirty_pinned 0 = Some 0 \<and>
           is_dirty (pages ex_dirty_pinned 0)"
    by (simp add: ex_dirty_pinned_def ev)
  have c: "calls (disk_manager ex_dirty_pinned) = [AllocatePageCall]"
    "data (pages ex_dirty_pinned 0) = replicate 4 0"
    "pin_count (pages ex_dirty_pinned 0) = 1"
    by (simp_all add: ex_dirty_pinned_def ev)
  from FlushPage_spec [of 0 ex_dirty_pinned] h c show ?thesis by simp
qed

section \<open>Victim selection\<close>














section \<open>NewPage on an exhausted pool\<close>

text \<open>
  Claim C10. When the free list and the replacer are both empty, \<^verbatim>\<open>NewPage\<close> returns no
  handle and the whole state, the disk collaborator included, is as before: no request
  was made and no logical id consumed. Whenever \<^verbatim>\<open>NewPage\<close> returns with the disk
  changed, victim selection had yielded a frame and that frame is returned.
\<close>

theorem NewPage_exhausted:
  "(free_list s = [] \<and> replacer s = [] \<longrightarrow> NewPage s = Inr (None, s)) \<and>
   (\<forall>r s'. NewPage s = Inr (r, s') \<and> disk_manager s' \<noteq> disk_manager s \<longrightarrow>
      (\<exists>t pid s1. r = Some (t, pid) \<and> GetVictimPage s = Inr (Some t, s1)))"
  by (auto simp: NewPage_def GetVictimPage_def lru_Size_def lru_Victim_def Let_def
      AllocatePage_def split: list.splits if_splits)

theorem NewPage_exhausted_witness:
  "free_list ex_pinned = [] \<and> replacer ex_pinned = [] \<and>
   NewPage ex_pinned = Inr (None, ex_pinned)"
proof -
  have h: "free_list ex_pinned = [] \<and> replacer ex_pinned = []"
    by (simp add: ex_pinned_def ev)
  from NewPage_exhausted [of ex_pinned] h show ?thesis by simp
qed

section \<open>Victims are unpinned\<close>

text \<open>
  Claim C9. In every reachable pool state all frames on the free list and all frames the
  replacer tracks have pin count 0; so the frame victim selection yields, the front of
  the free list or else the replacer's least recently inserted frame, has pin count 0.
  The assertion on the pin count never fails, and the replacer never comes back without
  a handle after reporting a positive size.
\<close>

theorem victim_unpinned:
  assumes "reachable s"
  shows "GetVictimPage s \<noteq> Inl AssertPinCountZero \<and>
         GetVictimPage s \<noteq> Inl NullHandle \<and>
         (\<forall>f \<in> set (free_list s) \<union> set (replacer s). pin_count (pages s f) = 0) \<and>
         (\<forall>t s1. GetVictimPage s = Inr (Some t, s1) \<longrightarrow>
            pin_count (pages s1 t) = 0 \<and>
            (t = hd (free_list s) \<and> free_list s \<noteq> [] \<or>
             t = hd (replacer s) \<and> replacer s \<noteq> [] \<and> free_list s = []))"
proof -
  from assms have inv: "pool_inv s" by (rule reachable_pool_inv)
  have u: "\<forall>f \<in> set (free_list s) \<union> set (replacer s). pin_count (pages s f) = 0"
    using inv unfolding pool_inv_def by blast
  then show ?thesis
    by (auto simp: GetVictimPage_def lru_Size_def lru_Victim_def split: list.splits if_splits)
qed

theorem victim_unpinned_witness:
  "reachable ex_unpinned \<and> replacer ex_unpinned = [0] \<and> free_list ex_unpinned = [] \<and>
   GetVictimPage ex_unpinned \<noteq> Inl AssertPinCountZero \<and>
   pin_count (pages ex_unpinned 0) = 0"
proof -
  have r: "reachable ex_unpinned"
    unfolding ex_unpinned_def ex_fresh_def by (rule after_reachable) (rule reachable_init)
  have e: "replacer ex_unpinned = [0]" "free_list ex_unpinned = []"
    by (simp_all add: ex_unpinned_def ev)
  from victim_unpinned [OF r] r e show ?thesis by simp
qed

section \<open>Write-back on eviction\<close>

text \<open>
  Claim C5. Whenever victim selection yields a frame, \<^verbatim>\<open>FetchPage\<close> on a miss and
  \<^verbatim>\<open>NewPage\<close> return that frame, and the requests they add to the disk collaborator's
  record are these: for a dirty victim one \<^verbatim>\<open>WritePage\<close> with the id and the contents the
  frame had before the call, for a clean victim no \<^verbatim>\<open>WritePage\<close> at all; \<^verbatim>\<open>FetchPage\<close>
  then reads the requested page, after the write; \<^verbatim>\<open>NewPage\<close> has allocated the new
  id before the write.
\<close>

theorem eviction_write_back:
  assumes v: "GetVictimPage s = Inr (Some t, s1)"
  shows "(page_table s pid = None \<longrightarrow>
           (\<exists>s'. FetchPage pid s = Inr (Some t, s') \<and>
              calls (disk_manager s') =
                calls (disk_manager s) @
                (if is_dirty (pages s t)
                 then [WritePageCall (page_id (pages s t)) (data (pages s t))] else []) @
                [ReadPageCall pid])) \<and>
         (\<exists>s'. NewPage s = Inr (Some (t, next_page_id (disk_manager s)), s') \<and>
              calls (disk_manager s') =
                calls (disk_manager s) @ [AllocatePageCall] @
                (if is_dirty (pages s t)
                 then [WritePageCall (page_id (pages s t)) (data (pages s t))] else []))"
proof -
  from victim_cases [OF v] have same: "pages s1 = pages s" "disk_manager s1 = disk_manager s"
    by auto
  have f: "page_table s pid = None \<longrightarrow>
           (\<exists>s'. FetchPage pid s = Inr (Some t, s') \<and>
              calls (disk_manager s') =
                calls (disk_manager s) @
                (if is_dirty (pages s t)
                 then [WritePageCall (page_id (pages s t)) (data (pages s t))] else []) @
                [ReadPageCall pid])"
  proof
    assume n: "page_table s pid = None"
    show "\<exists>s'. FetchPage pid s = Inr (Some t, s') \<and>
              calls (disk_manager s') =
                calls (disk_manager s) @
                (if is_dirty (pages s t)
                 then [WritePageCall (page_id (pages s t)) (data (pages s t))] else []) @
                [ReadPageCall pid]"
      unfolding FetchPage_miss [OF n v] using same
      by (simp add: ReadPage_def WritePage_def)
  qed
  have g: "\<exists>s'. NewPage s = Inr (Some (t, next_page_id (disk_manager s)), s') \<and>
              calls (disk_manager s') =
                calls (disk_manager s) @ [AllocatePageCall] @
                (if is_dirty (pages s t)
                 then [WritePageCall (page_id (pages s t)) (data (pages s t))] else [])"
    unfolding NewPage_some [OF v] using same
    by (simp add: AllocatePage_def WritePage_def)
  from f g show ?thesis by blast
qed

theorem eviction_write_back_witness:
  "GetVictimPage ex_dirty_unpinned = Inr (Some 0, ex_dirty_unpinned\<lparr>replacer := []\<rparr>) \<and>
   page_table ex_dirty_unpinned 5 = None \<and>
   (\<exists>s'. FetchPage 5 ex_dirty_unpinned = Inr (Some 0, s') \<and>
      calls (disk_manager s') =
        [AllocatePageCall, WritePageCall 0 (replicate 4 0), ReadPageCall 5])"
proof -
  have v: "GetVictimPage ex_dirty_unpinned = Inr (Some 0, ex_dirty_unpinned\<lparr>replacer := []\<rparr>)"
    by (simp add: ex_dirty_unpinned_def ev)
  have n: "page_table ex_dirty_unpinned 5 = None"
    by (simp add: ex_dirty_unpinned_def ev)
  have e: "calls (disk_manager ex_dirty_unpinned) = [AllocatePageCall]"
    "is_dirty (pages ex_dirty_unpinned 0)"
    "page_id (pages ex_dirty_unpinned 0) = 0"
    "data (pages ex_dirty_unpinned 0) = replicate 4 0"
    by (simp_all add: ex_dirty_unpinned_def ev)
  from eviction_write_back [OF v, of 5] v n e show ?thesis by simp
qed

section \<open>Exhaustion\<close>

text \<open>
  \<^verbatim>\<open>NewPage\<close>, and \<^verbatim>\<open>FetchPage\<close> on a miss, return no handle exactly when the free list
  and the replacer are both empty, and a handle they return is pinned once.
\<close>

lemma unavailable_iff:
  "(\<exists>s'. NewPage s = Inr (None, s')) \<longleftrightarrow> free_list s = [] \<and> replacer s = []"
  "page_table s pid = None \<Longrightarrow>
     (\<exists>s'. FetchPage pid s = Inr (None, s')) \<longleftrightarrow> free_list s = [] \<and> replacer s = []"
  by (auto simp: NewPage_def FetchPage_def hash_Find_def GetVictimPage_def lru_Size_def
      lru_Victim_def Let_def case_prod_beta split: list.splits if_splits)

lemma returned_frame_pinned:
  "NewPage s = Inr (Some (t, pid), s') \<Longrightarrow> pin_count (pages s' t) = 1"
  "page_table s pid = None \<Longrightarrow> FetchPage pid s = Inr (Some t, s') \<Longrightarrow> pin_count (pages s' t) = 1"
  by (auto simp: NewPage_def FetchPage_def hash_Find_def Let_def case_prod_beta
      split: sum.splits option.splits prod.splits)

text \<open>
  Claim C7 does not hold of the code. \<^verbatim>\<open>DeletePage\<close> puts the frame back on the free
  list with its old page id (it resets the dirty flag and the contents only), while
  victim selection asserts that a frame from the free list carries the INVALID sentinel.
  In a pool of one frame, after \<^verbatim>\<open>NewPage\<close>, \<^verbatim>\<open>UnpinPage(0, false)\<close>, \<^verbatim>\<open>DeletePage(0)\<close>
  the free list is not empty, and yet \<^verbatim>\<open>NewPage\<close> and \<^verbatim>\<open>FetchPage(7)\<close> return no
  pinned frame: they abort on that assertion.
\<close>

theorem NewPage_after_DeletePage_aborts:
  "run [New, Unpin 0 False, Delete 0] ex_fresh = Inr ex_deleted \<and>
   free_list ex_deleted = [0] \<and>
   page_table ex_deleted 7 = None \<and>
   page_id (pages ex_deleted 0) = 0 \<and>
   NewPage ex_deleted = Inl AssertFreePageIdInvalid \<and>
   FetchPage 7 ex_deleted = Inl AssertFreePageIdInvalid"
  by (simp add: ex_deleted_def ev)

section \<open>Replacer membership\<close>

text \<open>
  Claim C4, as amended. In every state reached from a freshly constructed pool by calls of
  \<^verbatim>\<open>FetchPage\<close>, \<^verbatim>\<open>UnpinPage\<close>, \<^verbatim>\<open>FlushPage\<close>, \<^verbatim>\<open>DeletePage\<close> and \<^verbatim>\<open>NewPage\<close> in which
  \<^verbatim>\<open>FetchPage\<close> is never asked for the INVALID sentinel and every id the disk collaborator
  allocates is valid and not resident at that moment, the frames the replacer tracks are
  exactly the Resident-Unpinned frames.
\<close>

theorem replacer_tracks_resident_unpinned:
  "well_used s \<Longrightarrow> set (replacer s) = {f. resident_unpinned s f}"
  using well_used_inv [of s] by (auto simp: tracking_inv_def)

theorem replacer_tracks_resident_unpinned_witness:
  "well_used ex_unpinned \<and> replacer ex_unpinned = [0] \<and> {f. resident_unpinned ex_unpinned f} = {0}"
proof -
  have w0: "well_used ex_fresh"
    unfolding ex_fresh_def by (rule well_used_init)
  have s1: "step New ex_fresh = Inr ex_pinned"
    by (simp add: ex_pinned_def ev)
  have a1: "admissible New ex_fresh"
    by (simp add: ev)
  have w1: "well_used ex_pinned"
    by (rule well_used_step [OF w0 a1 s1])
  have s2: "step (Unpin 0 False) ex_pinned = Inr ex_unpinned"
    by (simp add: ex_pinned_def ex_unpinned_def ev)
  have w2: "well_used ex_unpinned"
    by (rule well_used_step [OF w1 _ s2]) simp
  have r: "replacer ex_unpinned = [0]"
    by (simp add: ex_unpinned_def ev)
  from replacer_tracks_resident_unpinned [OF w2] w2 r show ?thesis by simp
qed

text \<open>
  The condition on the allocated ids is needed as well: when \<^verbatim>\<open>NewPage\<close> is handed an id
  that is resident in another frame, that frame loses its page-table entry and stays in
  the replacer.
\<close>

lemma stale_allocation_example:
  "reachable ex_collision \<and> 0 \<in> set (replacer ex_collision) \<and>
   page_id (pages ex_collision 0) = 0 \<and> page_table ex_collision 0 = Some 1 \<and>
   \<not> resident_unpinned ex_collision 0"
proof -
  have "reachable ex_collision"
    unfolding ex_collision_def by (rule after_reachable) (rule reachable_init)
  then show ?thesis
    by (simp add: ex_collision_def resident_unpinned_def ev)
qed

text \<open>
  Claim C4 as stated fails: in a pool of one frame, \<^verbatim>\<open>FetchPage(INVALID_PAGE_ID)\<close> and
  then \<^verbatim>\<open>UnpinPage(INVALID_PAGE_ID, false)\<close> leave frame 0 tracked by the replacer, and
  frame 0 is not Resident-Unpinned, since the id it holds is not a valid one.
\<close>

theorem replacer_tracks_resident_unpinned_counterexample:
  "reachable ex_invalid \<and> 0 \<in> set (replacer ex_invalid) \<and> \<not> resident_unpinned ex_invalid 0"
proof -
  have "reachable ex_invalid"
    unfolding ex_invalid_def ex_fresh_def by (rule after_reachable) (rule reachable_init)
  moreover have "0 \<in> set (replacer ex_invalid) \<and> \<not> resident_unpinned ex_invalid 0"
    by (simp add: ex_invalid_def resident_unpinned_def ev)
  ultimately show ?thesis by simp
qed

end
